theory Spec2Isabelle
  imports Complex_Main "HOL-Library.Multiset"
begin

section \<open>Data model\<close>

text \<open>
  An array as numpy holds it: a shape and a flat buffer in row-major order. For a
  two-dimensional array of shape \<open>[h, w]\<close> the pixel in row \<open>r\<close> and column \<open>c\<close> is the
  element \<open>r * w + c\<close> of the buffer. Pixel intensities of a TIFF image and the integer
  threshold are compared as mathematical integers.
\<close>

record 'a ndarray =
  shape :: "nat list"
  data :: "'a list"

definition ndim :: "'a ndarray \<Rightarrow> nat" where
  "ndim a = length (shape a)"

text \<open>Every array that numpy builds has as many elements as its shape says.\<close>

definition well_formed :: "'a ndarray \<Rightarrow> bool" where
  "well_formed a = (length (data a) = prod_list (shape a))"

text \<open>
  The exceptions of the program as values. \<open>ValueError\<close> is the one raised by
  \<open>count_multiplicity\<close> for an image that is not two-dimensional; it carries the shape that
  the message prints. \<open>ReadError\<close> stands for whatever \<open>tiff.imread\<close> raises on a file it
  cannot read.
\<close>

datatype error = ValueError "nat list" | ReadError

text \<open>
  The file system as the program sees it: what \<open>glob\<close> returns for a pattern and what
  \<open>tiff.imread\<close> returns for a path.
\<close>

record world =
  glob :: "string \<Rightarrow> string list"
  imread :: "string \<Rightarrow> error + int ndarray"

section \<open>Connected-component labelling\<close>

text \<open>
  Two different pixels of a grid of width \<open>w\<close>, given by their positions in the buffer, are
  neighbours when their rows and their columns differ by at most one and the two
  differences add up to at most \<open>connectivity\<close>, the number of orthogonal steps that
  \<open>skimage\<close> allows between neighbours: 1 gives the four edge neighbours, 2 the eight edge
  and corner neighbours.
\<close>

definition adjacent :: "nat \<Rightarrow> nat \<Rightarrow> nat \<Rightarrow> nat \<Rightarrow> bool" where
  "adjacent connectivity w i j =
     (let dr = \<bar>int (i div w) - int (j div w)\<bar>; dc = \<bar>int (i mod w) - int (j mod w)\<bar>
      in i \<noteq> j \<and> dr \<le> 1 \<and> dc \<le> 1 \<and> dr + dc \<le> int connectivity)"

definition neighbours :: "nat \<Rightarrow> nat \<Rightarrow> nat \<Rightarrow> nat \<Rightarrow> nat list" where
  "neighbours connectivity h w i = filter (adjacent connectivity w i) [0..<h * w]"

text \<open>
  Flood fill from a stack of pixels: a foreground pixel that has no label yet receives the
  label \<open>Suc n\<close> and its neighbours are pushed.
\<close>

function flood :: "(nat \<Rightarrow> nat list) \<Rightarrow> bool list \<Rightarrow> nat \<Rightarrow> nat list \<Rightarrow> nat list \<Rightarrow> nat list" where
  "flood nb fg n lab [] = lab"
| "flood nb fg n lab (i # stk) =
     (if i < length lab \<and> i < length fg \<and> fg ! i \<and> lab ! i = 0
      then flood nb fg n (lab[i := Suc n]) (nb i @ stk)
      else flood nb fg n lab stk)"
  by pat_completeness auto

termination flood
proof -
  have less: "count_list (lab[i := Suc n]) 0 < count_list lab 0"
    if "i < length lab" "lab ! i = 0" for lab :: "nat list" and i n
    using that
  proof (induction lab arbitrary: i)
    case Nil
    then show ?case by simp
  next
    case (Cons x xs)
    show ?case
    proof (cases i)
      case 0
      with Cons.prems show ?thesis by simp
    next
      case (Suc k)
      with Cons.prems have "count_list (xs[k := Suc n]) 0 < count_list xs 0"
        by (intro Cons.IH) simp_all
      with Suc show ?thesis by simp
    qed
  qed
  show ?thesis
    by (relation "measures [\<lambda>(nb, fg, n, lab, stk). count_list lab 0,
                            \<lambda>(nb, fg, n, lab, stk). length stk]")
       (auto simp: less)
qed

text \<open>
  The raster scan: pixels are visited in buffer order, and each foreground pixel met
  without a label starts a new region. The state is the number of regions found so far and
  the label buffer.
\<close>

fun scan :: "(nat \<Rightarrow> nat list) \<Rightarrow> bool list \<Rightarrow> nat list \<Rightarrow> nat \<times> nat list \<Rightarrow> nat \<times> nat list" where
  "scan nb fg [] (n, lab) = (n, lab)"
| "scan nb fg (i # is) (n, lab) =
     (if i < length lab \<and> i < length fg \<and> fg ! i \<and> lab ! i = 0
      then scan nb fg is (Suc n, flood nb fg n lab [i])
      else scan nb fg is (n, lab))"

text \<open>
  Modelled from the spec: \<open>skimage.measure.label\<close> is a library function, not under src/.
  The spec describes it as the capability that, given a 2D boolean grid, partitions the
  true cells into maximal connected groups; the source calls it with \<open>connectivity=2\<close>,
  groups connected at edges or corners. The result is an array of the same shape that
  holds 0 at background pixels and the number of its region, counted from 1 in discovery
  order, at every foreground pixel. Only the two-dimensional case is modelled: the source
  calls it after the check of \<open>ndim\<close>.
\<close>

definition label :: "bool ndarray \<Rightarrow> nat \<Rightarrow> nat ndarray" where
  "label a connectivity =
     (let h = shape a ! 0; w = shape a ! 1
      in \<lparr>shape = shape a,
          data = snd (scan (neighbours connectivity h w) (data a) [0..<h * w]
                        (0, replicate (h * w) 0))\<rparr>)"

text \<open>
  Modelled from the spec: \<open>skimage.measure.regionprops\<close> is a library function, not under
  src/. It yields one region for every label from 1 to the largest one that occurs in the
  labelled image, in ascending order of the label; the area of a region is the number of
  pixels carrying its label (the spec: for each group, its member count).
\<close>

record region =
  region_label :: nat
  area :: int

definition regionprops :: "nat ndarray \<Rightarrow> region list" where
  "regionprops li =
     map (\<lambda>l. \<lparr>region_label = l, area = int (count_list (data li) l)\<rparr>)
       (filter (\<lambda>l. l \<in> set (data li)) [1..<Suc (fold max (data li) 0)])"

section \<open>Numeric primitives\<close>

text \<open>
  The numbers that the statistics return. In the exact reading of the statistics a float
  is taken as the real it stands for and the operations are those of the reals; the
  float64 rounding of the operations is written out in the next section. \<open>NaN\<close> is
  numpy's nan, the result of 0/0.
\<close>

datatype npfloat = Num real | NaN

text \<open>
  Modelled from the spec: \<open>numpy.mean\<close>, \<open>numpy.std\<close> and \<open>numpy.sqrt\<close> are library
  functions, not under src/. The spec describes them as the primitives that, given a
  sequence of numbers, return the arithmetic mean and the sample standard deviation, and it
  calls the division by a zero count undefined. \<open>np_mean\<close> is the sum divided by the count.
  \<open>np_std_ddof1\<close> is \<open>numpy.std\<close> with \<open>ddof=1\<close>: the square root of the sum of the squared
  deviations from the mean, divided by the count minus one; for fewer than two values that
  division is 0/0 and numpy returns nan.
\<close>

definition np_mean :: "int list \<Rightarrow> npfloat" where
  "np_mean a = (if a = [] then NaN else Num (real_of_int (sum_list a) / real (length a)))"

definition np_std_ddof1 :: "int list \<Rightarrow> npfloat" where
  "np_std_ddof1 a =
     (if length a \<le> 1 then NaN
      else Num (sqrt ((\<Sum>x\<leftarrow>a. (real_of_int x - real_of_int (sum_list a) / real (length a))\<^sup>2)
                      / real (length a - 1))))"

definition np_sqrt :: "nat \<Rightarrow> real" where
  "np_sqrt n = sqrt (real n)"

text \<open>Division of a float by a positive number: nan stays nan.\<close>

fun np_divide :: "npfloat \<Rightarrow> real \<Rightarrow> npfloat" where
  "np_divide (Num x) y = Num (x / y)"
| "np_divide NaN y = NaN"

section \<open>Float64 arithmetic\<close>










section \<open>The program\<close>

text \<open>Line 26 of the source, \<open>binary_image = image >= threshold_value\<close>, elementwise.\<close>

definition binary_image :: "int ndarray \<Rightarrow> int \<Rightarrow> bool ndarray" where
  "binary_image img threshold_value =
     \<lparr>shape = shape img, data = map (\<lambda>x. x \<ge> threshold_value) (data img)\<rparr>"

definition labeled_image :: "int ndarray \<Rightarrow> int \<Rightarrow> nat ndarray" where
  "labeled_image img threshold_value = label (binary_image img threshold_value) 2"

definition count_multiplicity :: "world \<Rightarrow> string \<Rightarrow> int \<Rightarrow> error + int list" where
  "count_multiplicity wd image_path threshold_value =
     (case imread wd image_path of
        Inl e \<Rightarrow> Inl e
      | Inr img \<Rightarrow>
          if ndim img \<noteq> 2 then Inl (ValueError (shape img))
          else Inr (map area (regionprops (labeled_image img threshold_value))))"

text \<open>\<open>os.path.join\<close> of two components, as \<open>posixpath\<close> does it.\<close>

definition os_path_join :: "string \<Rightarrow> string \<Rightarrow> string" where
  "os_path_join a b =
     (if b \<noteq> [] \<and> hd b = CHR ''/'' then b
      else if a = [] \<or> last a = CHR ''/'' then a @ b
      else a @ ''/'' @ b)"

text \<open>
  The list comprehension of line 54: the calls are made in order, and the first exception
  ends the comprehension.
\<close>

fun collect :: "('a \<Rightarrow> error + 'b) \<Rightarrow> 'a list \<Rightarrow> error + 'b list" where
  "collect f [] = Inr []"
| "collect f (x # xs) =
     (case f x of
        Inl e \<Rightarrow> Inl e
      | Inr y \<Rightarrow> (case collect f xs of Inl e \<Rightarrow> Inl e | Inr ys \<Rightarrow> Inr (y # ys)))"

text \<open>
  \<open>process_images_in_folder\<close> returns its result, or the exception that ended it, together
  with the lines it printed.
\<close>

definition process_images_in_folder :: "world \<Rightarrow> string \<Rightarrow> int \<Rightarrow> (error + int list list) \<times> string list" where
  "process_images_in_folder wd folder_path threshold_value =
     (let image_paths = glob wd (os_path_join folder_path ''*.tiff'')
      in if image_paths = []
         then (Inr [], [''No TIFF files found in folder: '' @ folder_path])
         else (collect (\<lambda>image_path. count_multiplicity wd image_path threshold_value) image_paths, []))"

definition average_multiplicity_with_error :: "int list list \<Rightarrow> npfloat \<times> npfloat" where
  "average_multiplicity_with_error all_multiplicities =
     (let flattened_multiplicities = concat all_multiplicities
      in if flattened_multiplicities \<noteq> []
         then (let avg_multiplicity = np_mean flattened_multiplicities;
                   std_dev = np_std_ddof1 flattened_multiplicities;
                   n = length flattened_multiplicities;
                   sem = np_divide std_dev (np_sqrt n)
               in (avg_multiplicity, sem))
         else (Num 0, Num 0))"


section \<open>The formulas of the specification\<close>

text \<open>
  The statistics in the words of the specification, as real numbers: the arithmetic mean of
  all values, the sample standard deviation (divisor count minus one), and the standard
  error of the mean, the sample standard deviation divided by the square root of the count.
\<close>

definition mean_formula :: "int list \<Rightarrow> real" where
  "mean_formula xs = real_of_int (sum_list xs) / real (length xs)"

definition sample_std_formula :: "int list \<Rightarrow> real" where
  "sample_std_formula xs =
     sqrt ((\<Sum>x\<leftarrow>xs. (real_of_int x - mean_formula xs)\<^sup>2) / (real (length xs) - 1))"

definition sem_formula :: "int list \<Rightarrow> real" where
  "sem_formula xs = sample_std_formula xs / sqrt (real (length xs))"

section \<open>Properties of the labelling\<close>

declare flood.simps [simp del]

lemma flood_length: "length (flood nb fg n lab stk) = length lab"
  by (induction nb fg n lab stk rule: flood.induct) (auto simp: flood.simps)

lemma flood_frame:
  "j < length lab \<Longrightarrow>
   flood nb fg n lab stk ! j = lab ! j \<or>
   (lab ! j = 0 \<and> j < length fg \<and> fg ! j \<and> flood nb fg n lab stk ! j = Suc n)"
proof (induction nb fg n lab stk rule: flood.induct)
  case (1 nb fg n lab)
  then show ?case by (simp add: flood.simps)
next
  case (2 nb fg n lab i stk)
  show ?case
  proof (cases "i < length lab \<and> i < length fg \<and> fg ! i \<and> lab ! i = 0")
    case True
    with 2 have
      "flood nb fg n (lab[i := Suc n]) (nb i @ stk) ! j = lab[i := Suc n] ! j \<or>
       (lab[i := Suc n] ! j = 0 \<and> j < length fg \<and> fg ! j \<and>
        flood nb fg n (lab[i := Suc n]) (nb i @ stk) ! j = Suc n)"
      by simp
    with True 2 show ?thesis
      by (cases "i = j") (auto simp: flood.simps)
  next
    case False
    with 2 show ?thesis by (auto simp: flood.simps)
  qed
qed

lemma flood_seed:
  assumes "i < length lab" "i < length fg" "fg ! i" "lab ! i = 0"
  shows "flood nb fg n lab (i # stk) ! i = Suc n"
proof -
  have "flood nb fg n lab (i # stk) = flood nb fg n (lab[i := Suc n]) (nb i @ stk)"
    using assms by (simp add: flood.simps)
  moreover have "flood nb fg n (lab[i := Suc n]) (nb i @ stk) ! i = lab[i := Suc n] ! i
     \<or> lab[i := Suc n] ! i = 0"
    using flood_frame [of i "lab[i := Suc n]" nb fg n "nb i @ stk"] assms by auto
  ultimately show ?thesis using assms by simp
qed

lemma scan_length: "length (snd (scan nb fg is (n, lab))) = length lab"
  by (induction "is" arbitrary: n lab) (auto simp: flood_length)

lemma scan_frame:
  "j < length lab \<Longrightarrow>
   snd (scan nb fg is (n, lab)) ! j = lab ! j \<or>
   (lab ! j = 0 \<and> j < length fg \<and> fg ! j \<and> snd (scan nb fg is (n, lab)) ! j \<noteq> 0)"
proof (induction "is" arbitrary: n lab)
  case Nil
  then show ?case by simp
next
  case (Cons i "is")
  show ?case
  proof (cases "i < length lab \<and> i < length fg \<and> fg ! i \<and> lab ! i = 0")
    case True
    let ?lab' = "flood nb fg n lab [i]"
    have len: "j < length ?lab'" using Cons.prems by (simp add: flood_length)
    from Cons.IH [OF len, of "Suc n"] flood_frame [OF Cons.prems, of nb fg n "[i]"] True
    show ?thesis by auto
  next
    case False
    with Cons show ?thesis by auto
  qed
qed

lemma scan_covers:
  "j \<in> set is \<Longrightarrow> j < length lab \<Longrightarrow> j < length fg \<Longrightarrow> fg ! j \<Longrightarrow>
   snd (scan nb fg is (n, lab)) ! j \<noteq> 0"
proof (induction "is" arbitrary: n lab)
  case Nil
  then show ?case by simp
next
  case (Cons i "is")
  show ?case
  proof (cases "lab ! j = 0")
    case False
    with scan_frame [OF Cons.prems(2), of nb fg "i # is" n] show ?thesis by auto
  next
    case z: True
    show ?thesis
    proof (cases "i = j")
      case True
      let ?lab' = "flood nb fg n lab [i]"
      have s: "?lab' ! j = Suc n" using True Cons.prems z by (simp only: flood_seed)
      have len: "j < length ?lab'" using Cons.prems by (simp add: flood_length)
      from scan_frame [OF len, of nb fg "is" "Suc n"] s
      have "snd (scan nb fg is (Suc n, ?lab')) ! j \<noteq> 0" by auto
      with True Cons.prems z show ?thesis by simp
    next
      case False
      with Cons.prems have mem: "j \<in> set is" by simp
      show ?thesis
      proof (cases "i < length lab \<and> i < length fg \<and> fg ! i \<and> lab ! i = 0")
        case True
        let ?lab' = "flood nb fg n lab [i]"
        have len: "j < length ?lab'" using Cons.prems by (simp add: flood_length)
        from Cons.IH [OF mem len Cons.prems(3,4), of "Suc n"] True show ?thesis by simp
      next
        case False
        from Cons.IH [OF mem Cons.prems(2,3,4), of n] False show ?thesis by auto
      qed
    qed
  qed
qed

lemma label_shape: "shape (label a conn) = shape a"
  by (simp add: label_def Let_def)

lemma label_length: "shape a = [h, w] \<Longrightarrow> length (data (label a conn)) = h * w"
  by (simp add: label_def Let_def scan_length)

lemma label_nonzero_iff:
  assumes sh: "shape a = [h, w]" and len: "length (data a) = h * w" and i: "i < h * w"
  shows "(data (label a conn) ! i \<noteq> 0) = (data a ! i)"
proof -
  let ?res = "snd (scan (neighbours conn h w) (data a) [0..<h * w] (0, replicate (h * w) 0))"
  have d: "data (label a conn) = ?res" using sh by (simp add: label_def Let_def)
  have il: "i < length (replicate (h * w) (0::nat))" using i by simp
  have "data a ! i \<Longrightarrow> ?res ! i \<noteq> 0"
    using scan_covers [of i "[0..<h * w]" "replicate (h * w) 0" "data a" "neighbours conn h w" 0] i len
    by simp
  moreover have "?res ! i \<noteq> 0 \<Longrightarrow> data a ! i"
    using scan_frame [OF il, of "neighbours conn h w" "data a" "[0..<h * w]" 0] i by auto
  ultimately show ?thesis using d by auto
qed

lemma sum_count_list_distinct:
  "distinct ls \<Longrightarrow> (\<Sum>l\<leftarrow>ls. count_list xs l) = length (filter (\<lambda>x. x \<in> set ls) xs)"
proof (induction xs)
  case Nil
  then show ?case by simp
next
  case (Cons x xs)
  have one: "(\<Sum>l\<leftarrow>ls. if x = l then 1 else 0) = (if x \<in> set ls then 1 else (0::nat))"
    using Cons.prems by (induction ls) auto
  have "(\<Sum>l\<leftarrow>ls. count_list (x # xs) l) =
        (\<Sum>l\<leftarrow>ls. count_list xs l) + (\<Sum>l\<leftarrow>ls. if x = l then 1 else 0)"
    by (induction ls) auto
  with Cons one show ?case by simp
qed

lemma fold_max_ge: "m \<le> fold max xs (m::nat) \<and> (\<forall>x \<in> set xs. x \<le> fold max xs m)"
proof (induction xs arbitrary: m)
  case Nil
  then show ?case by simp
next
  case (Cons y ys)
  from Cons [of "max y m"] show ?case by auto
qed

lemma regionprops_labels:
  "set (filter (\<lambda>l. l \<in> set xs) [1..<Suc (fold max xs 0)]) = {x \<in> set xs. x \<noteq> 0}"
  using fold_max_ge [of 0 xs] by (auto simp: less_Suc_eq_le)

lemma sum_list_map_int: "(\<Sum>l\<leftarrow>ls. int (f l)) = int (\<Sum>l\<leftarrow>ls. f l)"
  by (induction ls) auto

lemma count_list_pos: "x \<in> set xs \<Longrightarrow> 0 < count_list xs x"
  using count_list_0_iff [of xs x] by auto

lemma regionprops_sum:
  "sum_list (map area (regionprops li)) = int (length (filter (\<lambda>x. x \<noteq> 0) (data li)))"
proof -
  let ?xs = "data li"
  let ?ls = "filter (\<lambda>l. l \<in> set ?xs) [1..<Suc (fold max ?xs 0)]"
  have "sum_list (map area (regionprops li)) = int (\<Sum>l\<leftarrow>?ls. count_list ?xs l)"
    by (simp add: regionprops_def comp_def sum_list_map_int del: upt_Suc)
  also have "(\<Sum>l\<leftarrow>?ls. count_list ?xs l) = length (filter (\<lambda>x. x \<in> set ?ls) ?xs)"
    by (rule sum_count_list_distinct) simp
  also have "filter (\<lambda>x. x \<in> set ?ls) ?xs = filter (\<lambda>x. x \<noteq> 0) ?xs"
    unfolding regionprops_labels by (rule filter_cong) auto
  finally show ?thesis .
qed

lemma regionprops_pos: "r \<in> set (regionprops li) \<Longrightarrow> 0 < area r"
  by (auto simp: regionprops_def count_list_pos simp del: upt_Suc)

lemma length_filter_pointwise:
  "length xs = length ys \<Longrightarrow> (\<forall>i < length xs. P (xs ! i) = Q (ys ! i)) \<Longrightarrow>
   length (filter P xs) = length (filter Q ys)"
proof (induction xs ys rule: list_induct2)
  case Nil
  then show ?case by simp
next
  case (Cons x xs y ys)
  from Cons.prems have "P x = Q y" by auto
  moreover from Cons.prems have "\<forall>i < length xs. P (xs ! i) = Q (ys ! i)" by auto
  ultimately show ?case using Cons.IH by simp
qed

lemma sum_list_pos_length:
  "(\<forall>x \<in> set xs. 0 < x) \<Longrightarrow> int (length xs) \<le> sum_list (xs :: int list)"
  by (induction xs) auto

lemma adjacent_sym: "adjacent conn w i j = adjacent conn w j i"
  by (auto simp: adjacent_def Let_def)

lemma set_neighbours: "set (neighbours conn h w i) = {j. j < h * w \<and> adjacent conn w i j}"
  by (auto simp: neighbours_def)

lemma flood_closed:
  assumes sym: "\<And>j k. j < N \<Longrightarrow> k < N \<Longrightarrow> k \<in> set (nb j) \<Longrightarrow> j \<in> set (nb k)"
    and len: "length lab = N" "length fg = N"
    and inv: "\<And>j k. j < N \<Longrightarrow> k < N \<Longrightarrow> k \<in> set (nb j) \<Longrightarrow> fg ! j \<Longrightarrow> fg ! k \<Longrightarrow>
               lab ! j \<noteq> 0 \<Longrightarrow> lab ! k = lab ! j \<or> (lab ! j = Suc n \<and> k \<in> set stk)"
    and jk: "j < N" "k < N" "k \<in> set (nb j)" "fg ! j" "fg ! k"
            "flood nb fg n lab stk ! j \<noteq> 0"
  shows "flood nb fg n lab stk ! k = flood nb fg n lab stk ! j"
  using sym len inv jk
proof (induction nb fg n lab stk rule: flood.induct)
  case (1 nb fg n lab)
  from "1.prems"(4) [OF "1.prems"(5-9)] "1.prems"(10) show ?case
    by (simp add: flood.simps)
next
  case (2 nb fg n lab i stk)
  note sym = "2.prems"(1) and len = "2.prems"(2,3) and inv = "2.prems"(4)
  show ?case
  proof (cases "i < length lab \<and> i < length fg \<and> fg ! i \<and> lab ! i = 0")
    case True
    let ?lab = "lab[i := Suc n]"
    have eq: "flood nb fg n lab (i # stk) = flood nb fg n ?lab (nb i @ stk)"
      using True by (simp add: flood.simps)
    have inv': "?lab ! b = ?lab ! a \<or> (?lab ! a = Suc n \<and> b \<in> set (nb i @ stk))"
      if ab: "a < N" "b < N" "b \<in> set (nb a)" "fg ! a" "fg ! b" "?lab ! a \<noteq> 0" for a b
    proof (cases "a = i")
      case True
      with ab len show ?thesis by simp
    next
      case False
      with ab len have nz: "lab ! a \<noteq> 0" by simp
      from inv [OF ab(1-5) nz]
      have old: "lab ! b = lab ! a \<or> (lab ! a = Suc n \<and> b \<in> set (i # stk))" .
      show ?thesis
      proof (cases "b = i")
        case bi: True
        with old nz True have "lab ! a = Suc n" by auto
        with bi False ab len show ?thesis by simp
      next
        case bi: False
        with old False ab len show ?thesis by auto
      qed
    qed
    have "flood nb fg n ?lab (nb i @ stk) ! k = flood nb fg n ?lab (nb i @ stk) ! j"
    proof (rule "2.IH"(1) [OF True])
      show "\<And>j k. j < N \<Longrightarrow> k < N \<Longrightarrow> k \<in> set (nb j) \<Longrightarrow> j \<in> set (nb k)" by (rule sym)
      show "length ?lab = N" using len by simp
      show "length fg = N" by (rule len)
      show "\<And>a b. a < N \<Longrightarrow> b < N \<Longrightarrow> b \<in> set (nb a) \<Longrightarrow> fg ! a \<Longrightarrow> fg ! b \<Longrightarrow>
              ?lab ! a \<noteq> 0 \<Longrightarrow> ?lab ! b = ?lab ! a \<or> (?lab ! a = Suc n \<and> b \<in> set (nb i @ stk))"
        by (rule inv')
      show "j < N" "k < N" "k \<in> set (nb j)" "fg ! j" "fg ! k" by (rule "2.prems"(5-9))+
      show "flood nb fg n ?lab (nb i @ stk) ! j \<noteq> 0" using "2.prems"(10) eq by simp
    qed
    with eq show ?thesis by simp
  next
    case False
    have eq: "flood nb fg n lab (i # stk) = flood nb fg n lab stk"
      by (simp only: flood.simps False if_False)
    have inv': "lab ! b = lab ! a \<or> (lab ! a = Suc n \<and> b \<in> set stk)"
      if ab: "a < N" "b < N" "b \<in> set (nb a)" "fg ! a" "fg ! b" "lab ! a \<noteq> 0" for a b
    proof -
      from inv [OF ab]
      have old: "lab ! b = lab ! a \<or> (lab ! a = Suc n \<and> b \<in> set (i # stk))" .
      show ?thesis
      proof (cases "b = i")
        case bi: False
        with old show ?thesis by auto
      next
        case bi: True
        with False ab len have nz: "lab ! b \<noteq> 0" by auto
        from inv [OF ab(2) ab(1) sym [OF ab(1,2,3)] ab(5) ab(4) nz]
        have "lab ! a = lab ! b \<or> lab ! b = Suc n" by auto
        with old show ?thesis by auto
      qed
    qed
    have "flood nb fg n lab stk ! k = flood nb fg n lab stk ! j"
    proof (rule "2.IH"(2) [OF False])
      show "\<And>j k. j < N \<Longrightarrow> k < N \<Longrightarrow> k \<in> set (nb j) \<Longrightarrow> j \<in> set (nb k)" by (rule sym)
      show "length lab = N" "length fg = N" by (rule len)+
      show "\<And>a b. a < N \<Longrightarrow> b < N \<Longrightarrow> b \<in> set (nb a) \<Longrightarrow> fg ! a \<Longrightarrow> fg ! b \<Longrightarrow>
              lab ! a \<noteq> 0 \<Longrightarrow> lab ! b = lab ! a \<or> (lab ! a = Suc n \<and> b \<in> set stk)"
        by (rule inv')
      show "j < N" "k < N" "k \<in> set (nb j)" "fg ! j" "fg ! k" by (rule "2.prems"(5-9))+
      show "flood nb fg n lab stk ! j \<noteq> 0" using "2.prems"(10) eq by simp
    qed
    with eq show ?thesis by simp
  qed
qed

lemma scan_closed:
  assumes sym: "\<And>j k. j < N \<Longrightarrow> k < N \<Longrightarrow> k \<in> set (nb j) \<Longrightarrow> j \<in> set (nb k)"
    and len: "length lab = N" "length fg = N"
    and inv: "\<And>j k. j < N \<Longrightarrow> k < N \<Longrightarrow> k \<in> set (nb j) \<Longrightarrow> fg ! j \<Longrightarrow> fg ! k \<Longrightarrow>
               lab ! j \<noteq> 0 \<Longrightarrow> lab ! k = lab ! j"
    and jk: "j < N" "k < N" "k \<in> set (nb j)" "fg ! j" "fg ! k"
            "snd (scan nb fg is (n, lab)) ! j \<noteq> 0"
  shows "snd (scan nb fg is (n, lab)) ! k = snd (scan nb fg is (n, lab)) ! j"
  using len inv jk(6)
proof (induction "is" arbitrary: n lab)
  case Nil
  from Nil.prems(3) [OF jk(1-5)] Nil.prems(4) show ?case by simp
next
  case (Cons i "is")
  show ?case
  proof (cases "i < length lab \<and> i < length fg \<and> fg ! i \<and> lab ! i = 0")
    case True
    let ?lab = "flood nb fg n lab [i]"
    have eq: "scan nb fg (i # is) (n, lab) = scan nb fg is (Suc n, ?lab)"
      using True by simp
    have inv': "?lab ! b = ?lab ! a"
      if ab: "a < N" "b < N" "b \<in> set (nb a)" "fg ! a" "fg ! b" "?lab ! a \<noteq> 0" for a b
    proof (rule flood_closed [where N = N])
      show "\<And>j k. j < N \<Longrightarrow> k < N \<Longrightarrow> k \<in> set (nb j) \<Longrightarrow> j \<in> set (nb k)" by (rule sym)
      show "length lab = N" "length fg = N" by (rule Cons.prems(1,2))+
      show "\<And>j k. j < N \<Longrightarrow> k < N \<Longrightarrow> k \<in> set (nb j) \<Longrightarrow> fg ! j \<Longrightarrow> fg ! k \<Longrightarrow>
               lab ! j \<noteq> 0 \<Longrightarrow> lab ! k = lab ! j \<or> (lab ! j = Suc n \<and> k \<in> set [i])"
        using Cons.prems(3) by blast
      show "a < N" "b < N" "b \<in> set (nb a)" "fg ! a" "fg ! b" "?lab ! a \<noteq> 0" by (rule ab)+
    qed
    have "snd (scan nb fg is (Suc n, ?lab)) ! k = snd (scan nb fg is (Suc n, ?lab)) ! j"
    proof (rule Cons.IH)
      show "length ?lab = N" using Cons.prems(1) by (simp add: flood_length)
      show "length fg = N" by (rule Cons.prems(2))
      show "\<And>a b. a < N \<Longrightarrow> b < N \<Longrightarrow> b \<in> set (nb a) \<Longrightarrow> fg ! a \<Longrightarrow> fg ! b \<Longrightarrow>
              ?lab ! a \<noteq> 0 \<Longrightarrow> ?lab ! b = ?lab ! a" by (rule inv')
      show "snd (scan nb fg is (Suc n, ?lab)) ! j \<noteq> 0" using Cons.prems(4) eq by simp
    qed
    with eq show ?thesis by simp
  next
    case False
    have eq: "scan nb fg (i # is) (n, lab) = scan nb fg is (n, lab)"
      by (simp only: scan.simps False if_False)
    have "snd (scan nb fg is (n, lab)) ! k = snd (scan nb fg is (n, lab)) ! j"
    proof (rule Cons.IH)
      show "length lab = N" "length fg = N" by (rule Cons.prems(1,2))+
      show "\<And>a b. a < N \<Longrightarrow> b < N \<Longrightarrow> b \<in> set (nb a) \<Longrightarrow> fg ! a \<Longrightarrow> fg ! b \<Longrightarrow>
              lab ! a \<noteq> 0 \<Longrightarrow> lab ! b = lab ! a" by (rule Cons.prems(3))
      show "snd (scan nb fg is (n, lab)) ! j \<noteq> 0" using Cons.prems(4) eq by simp
    qed
    with eq show ?thesis by simp
  qed
qed

lemma label_adjacent:
  assumes sh: "shape a = [h, w]" and len: "length (data a) = h * w"
    and ij: "i < h * w" "j < h * w" "adjacent conn w i j" "data a ! i" "data a ! j"
  shows "data (label a conn) ! i = data (label a conn) ! j"
proof -
  let ?res = "snd (scan (neighbours conn h w) (data a) [0..<h * w] (0, replicate (h * w) 0))"
  have d: "data (label a conn) = ?res" using sh by (simp add: label_def Let_def)
  have nz: "data (label a conn) ! j \<noteq> 0"
    using label_nonzero_iff [OF sh len ij(2)] ij(5) by simp
  have "?res ! i = ?res ! j"
  proof (rule scan_closed [where N = "h * w"])
    show "\<And>j k. j < h * w \<Longrightarrow> k < h * w \<Longrightarrow> k \<in> set (neighbours conn h w j) \<Longrightarrow>
            j \<in> set (neighbours conn h w k)"
      by (simp add: set_neighbours adjacent_sym)
    show "length (replicate (h * w) (0::nat)) = h * w" by simp
    show "length (data a) = h * w" by (rule len)
    show "\<And>j k. j < h * w \<Longrightarrow> k < h * w \<Longrightarrow> k \<in> set (neighbours conn h w j) \<Longrightarrow> data a ! j \<Longrightarrow>
            data a ! k \<Longrightarrow> replicate (h * w) (0::nat) ! j \<noteq> 0 \<Longrightarrow>
            replicate (h * w) (0::nat) ! k = replicate (h * w) 0 ! j"
      by simp
    show "j < h * w" "i < h * w" by (rule ij)+
    show "i \<in> set (neighbours conn h w j)" using ij by (simp add: set_neighbours adjacent_sym)
    show "data a ! j" "data a ! i" by (rule ij)+
    show "?res ! j \<noteq> 0" using nz d by simp
  qed
  with d show ?thesis by simp
qed

lemma four_connectivity_contrast:
  "map area (regionprops (label \<lparr>shape = [3, 3],
      data = [True, False, False, False, True, False, False, False, False]\<rparr> 1)) = [1, 1]"
  by code_simp

lemma flood_reach:
  assumes edge: "\<And>a b. a < N \<Longrightarrow> b < N \<Longrightarrow> fg ! a \<Longrightarrow> fg ! b \<Longrightarrow> b \<in> set (nb a) \<Longrightarrow> E a b"
    and len: "length lab = N" "length fg = N"
    and stk: "\<And>k. k \<in> set stk \<Longrightarrow> k < N \<Longrightarrow> fg ! k \<Longrightarrow> E\<^sup>*\<^sup>* s k"
    and old: "\<And>j. j < N \<Longrightarrow> lab ! j = Suc n \<Longrightarrow> E\<^sup>*\<^sup>* s j"
    and j: "j < N" "flood nb fg n lab stk ! j = Suc n"
  shows "E\<^sup>*\<^sup>* s j"
  using edge len stk old j
proof (induction nb fg n lab stk rule: flood.induct)
  case (1 nb fg n lab)
  from "1.prems"(5) [OF "1.prems"(6)] "1.prems"(7) show ?case by (simp add: flood.simps)
next
  case (2 nb fg n lab i stk)
  note edge = "2.prems"(1) and len = "2.prems"(2,3) and stk = "2.prems"(4) and old = "2.prems"(5)
  show ?case
  proof (cases "i < length lab \<and> i < length fg \<and> fg ! i \<and> lab ! i = 0")
    case True
    let ?lab = "lab[i := Suc n]"
    have eq: "flood nb fg n lab (i # stk) = flood nb fg n ?lab (nb i @ stk)"
      using True by (simp add: flood.simps)
    have iN: "i < N" using True len by simp
    have si: "E\<^sup>*\<^sup>* s i" using stk [of i] iN True by simp
    show ?thesis
    proof (rule "2.IH"(1) [OF True])
      show "\<And>a b. a < N \<Longrightarrow> b < N \<Longrightarrow> fg ! a \<Longrightarrow> fg ! b \<Longrightarrow> b \<in> set (nb a) \<Longrightarrow> E a b"
        by (rule edge)
      show "length ?lab = N" using len by simp
      show "length fg = N" by (rule len)
      show "E\<^sup>*\<^sup>* s k" if "k \<in> set (nb i @ stk)" "k < N" "fg ! k" for k
      proof (cases "k \<in> set (nb i)")
        case True
        have "E i k" using edge [OF iN that(2) _ that(3) True] \<open>i < length lab \<and> _\<close> by simp
        with si show ?thesis by (rule rtranclp.rtrancl_into_rtrancl)
      next
        case False
        with that have "k \<in> set (i # stk)" by simp
        from stk [OF this that(2,3)] show ?thesis .
      qed
      show "E\<^sup>*\<^sup>* s a" if "a < N" "?lab ! a = Suc n" for a
      proof (cases "a = i")
        case True
        with si show ?thesis by simp
      next
        case False
        with that have "lab ! a = Suc n" by simp
        from old [OF that(1) this] show ?thesis .
      qed
      show "j < N" by (rule "2.prems"(6))
      show "flood nb fg n ?lab (nb i @ stk) ! j = Suc n" using "2.prems"(7) eq by simp
    qed
  next
    case False
    have eq: "flood nb fg n lab (i # stk) = flood nb fg n lab stk"
      by (simp only: flood.simps False if_False)
    show ?thesis
    proof (rule "2.IH"(2) [OF False])
      show "\<And>a b. a < N \<Longrightarrow> b < N \<Longrightarrow> fg ! a \<Longrightarrow> fg ! b \<Longrightarrow> b \<in> set (nb a) \<Longrightarrow> E a b"
        by (rule edge)
      show "length lab = N" "length fg = N" by (rule len)+
      show "E\<^sup>*\<^sup>* s k" if "k \<in> set stk" "k < N" "fg ! k" for k
        using stk [of k] that by simp
      show "\<And>a. a < N \<Longrightarrow> lab ! a = Suc n \<Longrightarrow> E\<^sup>*\<^sup>* s a" by (rule old)
      show "j < N" by (rule "2.prems"(6))
      show "flood nb fg n lab stk ! j = Suc n" using "2.prems"(7) eq by simp
    qed
  qed
qed

lemma rtranclp_symmetric:
  assumes sym: "\<And>a b. E a b \<Longrightarrow> E b a" and r: "E\<^sup>*\<^sup>* x y"
  shows "E\<^sup>*\<^sup>* y x"
  using r
proof (induction rule: rtranclp_induct)
  case base
  show ?case by simp
next
  case (step y z)
  from sym [OF step.hyps(2)] have "E\<^sup>*\<^sup>* z y" by simp
  from this step.IH show ?case by (rule rtranclp_trans)
qed

lemma scan_reach:
  assumes edge: "\<And>a b. a < N \<Longrightarrow> b < N \<Longrightarrow> fg ! a \<Longrightarrow> fg ! b \<Longrightarrow> b \<in> set (nb a) \<Longrightarrow> E a b"
    and sym: "\<And>a b. E a b \<Longrightarrow> E b a"
    and len: "length lab = N" "length fg = N"
    and bound: "\<And>j. j < N \<Longrightarrow> lab ! j \<le> n"
    and inv: "\<And>j k. j < N \<Longrightarrow> k < N \<Longrightarrow> lab ! j = lab ! k \<Longrightarrow> lab ! j \<noteq> 0 \<Longrightarrow> E\<^sup>*\<^sup>* j k"
    and jk: "j < N" "k < N"
            "snd (scan nb fg ps (n, lab)) ! j = snd (scan nb fg ps (n, lab)) ! k"
            "snd (scan nb fg ps (n, lab)) ! j \<noteq> 0"
  shows "E\<^sup>*\<^sup>* j k"
  using len bound inv jk(3,4)
proof (induction ps arbitrary: n lab)
  case Nil
  from Nil.prems(4) [OF jk(1,2)] Nil.prems(5,6) show ?case by simp
next
  case (Cons i ps)
  show ?case
  proof (cases "i < length lab \<and> i < length fg \<and> fg ! i \<and> lab ! i = 0")
    case True
    let ?lab = "flood nb fg n lab [i]"
    have eq: "scan nb fg (i # ps) (n, lab) = scan nb fg ps (Suc n, ?lab)"
      using True by simp
    have frame: "?lab ! a = lab ! a \<or> (lab ! a = 0 \<and> ?lab ! a = Suc n)" if "a < N" for a
      using flood_frame [of a lab nb fg n "[i]"] that Cons.prems(1) by auto
    have reach: "E\<^sup>*\<^sup>* i a" if "a < N" "?lab ! a = Suc n" for a
    proof (rule flood_reach [where N = N and s = i])
      show "\<And>a b. a < N \<Longrightarrow> b < N \<Longrightarrow> fg ! a \<Longrightarrow> fg ! b \<Longrightarrow> b \<in> set (nb a) \<Longrightarrow> E a b"
        by (rule edge)
      show "length lab = N" "length fg = N" by (rule Cons.prems(1,2))+
      show "\<And>k. k \<in> set [i] \<Longrightarrow> k < N \<Longrightarrow> fg ! k \<Longrightarrow> E\<^sup>*\<^sup>* i k" by simp
      show "E\<^sup>*\<^sup>* i b" if "b < N" "lab ! b = Suc n" for b
        using Cons.prems(3) [OF that(1)] that(2) by simp
      show "a < N" "?lab ! a = Suc n" by (rule that)+
    qed
    show ?thesis
    proof (rule Cons.IH)
      show "length ?lab = N" using Cons.prems(1) by (simp add: flood_length)
      show "length fg = N" by (rule Cons.prems(2))
      show "?lab ! a \<le> Suc n" if "a < N" for a
        using frame [OF that] Cons.prems(3) [OF that] by auto
      show "E\<^sup>*\<^sup>* a b" if ab: "a < N" "b < N" "?lab ! a = ?lab ! b" "?lab ! a \<noteq> 0" for a b
      proof (cases "?lab ! a = Suc n")
        case True
        with ab have "?lab ! b = Suc n" by simp
        from reach [OF ab(1) True] reach [OF ab(2) this]
        have "E\<^sup>*\<^sup>* i a" "E\<^sup>*\<^sup>* i b" .
        with rtranclp_symmetric [of E i a] sym show ?thesis
          by (meson rtranclp_trans)
      next
        case False
        with frame [OF ab(1)] have a: "?lab ! a = lab ! a" by auto
        from False ab(3) frame [OF ab(2)] have b: "?lab ! b = lab ! b" by auto
        from Cons.prems(4) [OF ab(1,2)] a b ab(3,4) show ?thesis by simp
      qed
      show "snd (scan nb fg ps (Suc n, ?lab)) ! j = snd (scan nb fg ps (Suc n, ?lab)) ! k"
        using Cons.prems(5) eq by simp
      show "snd (scan nb fg ps (Suc n, ?lab)) ! j \<noteq> 0" using Cons.prems(6) eq by simp
    qed
  next
    case False
    have eq: "scan nb fg (i # ps) (n, lab) = scan nb fg ps (n, lab)"
      by (simp only: scan.simps False if_False)
    show ?thesis
    proof (rule Cons.IH)
      show "length lab = N" "length fg = N" by (rule Cons.prems(1,2))+
      show "\<And>a. a < N \<Longrightarrow> lab ! a \<le> n" by (rule Cons.prems(3))
      show "\<And>a b. a < N \<Longrightarrow> b < N \<Longrightarrow> lab ! a = lab ! b \<Longrightarrow> lab ! a \<noteq> 0 \<Longrightarrow> E\<^sup>*\<^sup>* a b"
        by (rule Cons.prems(4))
      show "snd (scan nb fg ps (n, lab)) ! j = snd (scan nb fg ps (n, lab)) ! k"
        using Cons.prems(5) eq by simp
      show "snd (scan nb fg ps (n, lab)) ! j \<noteq> 0" using Cons.prems(6) eq by simp
    qed
  qed
qed

text \<open>
  The labelling computes the connected components: two foreground pixels carry the same
  label exactly when a chain of neighbouring foreground pixels joins them.
\<close>

lemma label_components:
  assumes sh: "shape a = [h, w]" and len: "length (data a) = h * w"
    and ij: "i < h * w" "j < h * w" "data a ! i" "data a ! j"
  shows "(data (label a conn) ! i = data (label a conn) ! j) =
         (\<lambda>x y. x < h * w \<and> y < h * w \<and> data a ! x \<and> data a ! y \<and> adjacent conn w x y)\<^sup>*\<^sup>* i j"
    (is "?same = ?E\<^sup>*\<^sup>* i j")
proof
  let ?res = "snd (scan (neighbours conn h w) (data a) [0..<h * w] (0, replicate (h * w) 0))"
  have d: "data (label a conn) = ?res" using sh by (simp add: label_def Let_def)
  assume same: ?same
  have nz: "?res ! i \<noteq> 0" using label_nonzero_iff [OF sh len ij(1), of conn] ij(3) d by simp
  show "?E\<^sup>*\<^sup>* i j"
  proof (rule scan_reach [where N = "h * w" and nb = "neighbours conn h w" and fg = "data a"
        and lab = "replicate (h * w) 0" and n = 0 and ps = "[0..<h * w]"])
    show "\<And>x y. x < h * w \<Longrightarrow> y < h * w \<Longrightarrow> data a ! x \<Longrightarrow> data a ! y \<Longrightarrow>
            y \<in> set (neighbours conn h w x) \<Longrightarrow> ?E x y"
      by (simp add: set_neighbours)
    show "\<And>x y. ?E x y \<Longrightarrow> ?E y x" by (simp add: adjacent_sym)
    show "length (replicate (h * w) (0::nat)) = h * w" by simp
    show "length (data a) = h * w" by (rule len)
    show "\<And>x. x < h * w \<Longrightarrow> replicate (h * w) (0::nat) ! x \<le> 0" by simp
    show "\<And>x y. x < h * w \<Longrightarrow> y < h * w \<Longrightarrow>
            replicate (h * w) (0::nat) ! x = replicate (h * w) 0 ! y \<Longrightarrow>
            replicate (h * w) (0::nat) ! x \<noteq> 0 \<Longrightarrow> ?E\<^sup>*\<^sup>* x y"
      by simp
    show "i < h * w" "j < h * w" by (rule ij)+
    show "?res ! i = ?res ! j" using same d by simp
    show "?res ! i \<noteq> 0" by (rule nz)
  qed
next
  assume "?E\<^sup>*\<^sup>* i j"
  then show ?same
  proof (induction rule: rtranclp_induct)
    case base
    show ?case by simp
  next
    case (step y z)
    from step.hyps(2) have "data (label a conn) ! y = data (label a conn) ! z"
      by (intro label_adjacent [OF sh len]) simp_all
    with step.IH show ?case by simp
  qed
qed

section \<open>Properties of the program\<close>

lemma ndim2_shape: "ndim a = 2 \<Longrightarrow> shape a = [shape a ! 0, shape a ! 1]"
proof -
  assume "ndim a = 2"
  then have "length (shape a) = 2" by (simp add: ndim_def)
  then obtain x y where "shape a = [x, y]"
    by (cases "shape a"; cases "tl (shape a)") auto
  then show ?thesis by simp
qed

lemma ndim2_length:
  assumes "ndim a = 2" "well_formed a"
  shows "length (data a) = shape a ! 0 * shape a ! 1"
proof -
  have "prod_list (shape a) = prod_list [shape a ! 0, shape a ! 1]"
    using ndim2_shape [OF assms(1)] by simp
  then show ?thesis using assms(2) by (simp add: well_formed_def)
qed

lemma binary_image_simps:
  "shape (binary_image img t) = shape img"
  "data (binary_image img t) = map (\<lambda>x. t \<le> x) (data img)"
  "length (data (binary_image img t)) = length (data img)"
  by (simp_all add: binary_image_def)

lemma count_multiplicity_2d:
  "imread wd p = Inr img \<Longrightarrow> ndim img = 2 \<Longrightarrow>
   count_multiplicity wd p t = Inr (map area (regionprops (labeled_image img t)))"
  by (simp add: count_multiplicity_def)

lemma labeled_image_length:
  "ndim img = 2 \<Longrightarrow> well_formed img \<Longrightarrow>
   length (data (labeled_image img t)) = length (data img)"
  using ndim2_shape [of img] ndim2_length [of img]
    label_length [of "binary_image img t" "shape img ! 0" "shape img ! 1" 2]
  by (simp add: labeled_image_def binary_image_simps)

lemma labeled_image_nonzero_iff:
  assumes "ndim img = 2" "well_formed img" "i < length (data img)"
  shows "(data (labeled_image img t) ! i \<noteq> 0) = (t \<le> data img ! i)"
proof -
  let ?h = "shape img ! 0" and ?w = "shape img ! 1"
  have sh: "shape (binary_image img t) = [?h, ?w]"
    using ndim2_shape [OF assms(1)] by (simp add: binary_image_simps)
  have len: "length (data (binary_image img t)) = ?h * ?w"
    using ndim2_length [OF assms(1,2)] by (simp add: binary_image_simps)
  have i: "i < ?h * ?w" using assms(3) ndim2_length [OF assms(1,2)] by simp
  from label_nonzero_iff [OF sh len i] assms(3) show ?thesis
    by (simp add: labeled_image_def binary_image_simps)
qed

lemma foreground_count:
  assumes "ndim img = 2" "well_formed img"
  shows "length (filter (\<lambda>x. x \<noteq> 0) (data (labeled_image img t))) =
         length (filter (\<lambda>x. t \<le> x) (data img))"
proof (rule length_filter_pointwise)
  show "length (data (labeled_image img t)) = length (data img)"
    by (rule labeled_image_length [OF assms])
  show "\<forall>i<length (data (labeled_image img t)).
          (data (labeled_image img t) ! i \<noteq> 0) = (t \<le> data img ! i)"
    using labeled_image_nonzero_iff [OF assms] labeled_image_length [OF assms] by simp
qed

lemma multiplicities_sum:
  assumes "ndim img = 2" "well_formed img"
  shows "sum_list (map area (regionprops (labeled_image img t))) =
         int (length (filter (\<lambda>x. t \<le> x) (data img)))"
  using foreground_count [OF assms, of t] by (simp only: regionprops_sum)

lemma multiplicities_pos: "\<forall>m \<in> set (map area (regionprops li)). 0 < m"
  by (auto simp: regionprops_pos)

lemma index_div_mod:
  "c < w \<Longrightarrow> (r * w + c) div w = r \<and> (r * w + c) mod w = (c::nat)"
  by simp

lemma index_less: "r < h \<Longrightarrow> c < w \<Longrightarrow> r * w + c < h * (w::nat)"
proof -
  assume "r < h" "c < w"
  then have "r * w + c < Suc r * w" by simp
  also have "\<dots> \<le> h * w" using \<open>r < h\<close> by (intro mult_le_mono1) simp
  finally show ?thesis .
qed

lemma labeled_image_adjacent:
  assumes "ndim img = 2" "well_formed img"
    and "i < length (data img)" "j < length (data img)"
    and "adjacent 2 (shape img ! 1) i j"
    and "t \<le> data img ! i" "t \<le> data img ! j"
  shows "data (labeled_image img t) ! i = data (labeled_image img t) ! j"
proof -
  let ?h = "shape img ! 0" and ?w = "shape img ! 1"
  have sh: "shape (binary_image img t) = [?h, ?w]"
    using ndim2_shape [OF assms(1)] by (simp add: binary_image_simps)
  have len: "length (data (binary_image img t)) = ?h * ?w"
    using ndim2_length [OF assms(1,2)] by (simp add: binary_image_simps)
  have ij: "i < ?h * ?w" "j < ?h * ?w" using assms(3,4) ndim2_length [OF assms(1,2)] by simp_all
  have fg: "data (binary_image img t) ! i" "data (binary_image img t) ! j"
    using assms(3,4,6,7) by (simp_all add: binary_image_simps)
  from label_adjacent [OF sh len ij assms(5) fg] show ?thesis
    by (simp add: labeled_image_def)
qed

lemma no_foreground_labels:
  assumes "\<forall>x \<in> set (data img). x < t"
  shows "set (data (labeled_image img t)) \<subseteq> {0}"
proof -
  let ?fg = "data (binary_image img t)"
  let ?h = "shape img ! 0" and ?w = "shape img ! 1"
  let ?res = "snd (scan (neighbours 2 ?h ?w) ?fg [0..<?h * ?w] (0, replicate (?h * ?w) 0))"
  have d: "data (labeled_image img t) = ?res"
    by (simp add: labeled_image_def label_def Let_def binary_image_simps)
  have nofg: "\<not> ?fg ! j" if "j < length ?fg" for j
    using that assms nth_mem [of j "data img"] by (fastforce simp: binary_image_simps)
  have "?res ! j = 0" if "j < length ?res" for j
  proof -
    have j: "j < length (replicate (?h * ?w) (0::nat))" using that by (simp add: scan_length)
    from scan_frame [OF j, of "neighbours 2 ?h ?w" ?fg "[0..<?h * ?w]" 0] nofg [of j] j
    show ?thesis by auto
  qed
  then show ?thesis unfolding d by (auto simp: in_set_conv_nth)
qed

lemma regionprops_empty: "set (data li) \<subseteq> {0} \<Longrightarrow> regionprops li = []"
  by (auto simp: regionprops_def filter_empty_conv simp del: upt_Suc)

lemma labeled_image_components:
  assumes sh: "shape img = [h, w]" and wf: "well_formed img"
    and ij: "i < h * w" "j < h * w" "t \<le> data img ! i" "t \<le> data img ! j"
  shows "(data (labeled_image img t) ! i = data (labeled_image img t) ! j) =
         (\<lambda>x y. x < h * w \<and> y < h * w \<and> t \<le> data img ! x \<and> t \<le> data img ! y
                  \<and> adjacent 2 w x y)\<^sup>*\<^sup>* i j"
proof -
  let ?a = "binary_image img t"
  have len: "length (data img) = h * w" using sh wf by (simp add: well_formed_def)
  have sha: "shape ?a = [h, w]" using sh by (simp add: binary_image_simps)
  have lena: "length (data ?a) = h * w" using len by (simp add: binary_image_simps)
  have fg: "data ?a ! x = (t \<le> data img ! x)" if "x < h * w" for x
    using that len by (simp add: binary_image_simps)
  have rel: "(\<lambda>x y. x < h * w \<and> y < h * w \<and> data ?a ! x \<and> data ?a ! y \<and> adjacent 2 w x y)
      = (\<lambda>x y. x < h * w \<and> y < h * w \<and> t \<le> data img ! x \<and> t \<le> data img ! y \<and> adjacent 2 w x y)"
    by (intro ext) (auto simp: fg)
  have "data ?a ! i" "data ?a ! j" using ij by (simp_all add: fg)
  from label_components [OF sha lena ij(1,2) this, of 2] show ?thesis
    unfolding rel by (simp add: labeled_image_def)
qed

lemma corner_grid_mask:
  assumes "length xs = 9" "\<forall>i<9. (t \<le> xs ! i) = (i = 0 \<or> i = 4)"
  shows "map (\<lambda>x. t \<le> (x::int)) xs = [True, False, False, False, True, False, False, False, False]"
proof (rule nth_equalityI)
  show "length (map (\<lambda>x. t \<le> x) xs) =
        length [True, False, False, False, True, False, False, False, False]"
    using assms(1) by simp
next
  fix i
  assume "i < length (map (\<lambda>x. t \<le> x) xs)"
  then have i: "i < 9" using assms(1) by simp
  then have "i = 0 \<or> i = 1 \<or> i = 2 \<or> i = 3 \<or> i = 4 \<or> i = 5 \<or> i = 6 \<or> i = 7 \<or> i = 8"
    by arith
  with assms i show "map (\<lambda>x. t \<le> x) xs ! i =
      [True, False, False, False, True, False, False, False, False] ! i"
    by auto
qed

lemma corner_grid_regions:
  "map area (regionprops (label \<lparr>shape = [3, 3],
      data = [True, False, False, False, True, False, False, False, False]\<rparr> 2)) = [2]"
  by code_simp

section \<open>Properties of the statistics\<close>

lemma average_nonempty:
  "concat xss \<noteq> [] \<Longrightarrow>
   average_multiplicity_with_error xss =
     (np_mean (concat xss), np_divide (np_std_ddof1 (concat xss)) (np_sqrt (length (concat xss))))"
  by (simp add: average_multiplicity_with_error_def Let_def)

lemma average_empty:
  "concat xss = [] \<Longrightarrow> average_multiplicity_with_error xss = (Num 0, Num 0)"
  by (simp add: average_multiplicity_with_error_def Let_def)




lemma nonempty_of_length: "0 < length ys \<Longrightarrow> ys \<noteq> []"
  by auto

lemma np_mean_formula: "xs \<noteq> [] \<Longrightarrow> np_mean xs = Num (mean_formula xs)"
  by (simp add: np_mean_def mean_formula_def)

lemma np_sem_formula:
  assumes "2 \<le> length xs"
  shows "np_divide (np_std_ddof1 xs) (np_sqrt (length xs)) = Num (sem_formula xs)"
proof -
  have "real (length xs - 1) = real (length xs) - 1" using assms by (simp add: of_nat_diff)
  with assms show ?thesis
    by (simp add: np_std_ddof1_def np_sqrt_def sem_formula_def sample_std_formula_def
        mean_formula_def)
qed

lemma example_sum_squares:
  "(\<Sum>x\<leftarrow>[2, 3, 5 :: int]. (real_of_int x - 10 / 3)\<^sup>2) = 14 / 3"
  by (simp add: power2_eq_square field_simps)

lemma example_sem: "sem_formula [2, 3, 5] = sqrt 7 / 3"
proof -
  have m: "mean_formula [2, 3, 5] = 10 / 3" by (simp add: mean_formula_def)
  have "sample_std_formula [2, 3, 5] = sqrt (7 / 3)"
    unfolding sample_std_formula_def m example_sum_squares by simp
  then have "sem_formula [2, 3, 5] = sqrt (7 / 3) / sqrt 3" by (simp add: sem_formula_def)
  also have "\<dots> = sqrt (7 / 9)" by (simp add: real_sqrt_divide [symmetric])
  also have "\<dots> = sqrt 7 / 3" by (simp add: real_sqrt_divide)
  finally show ?thesis .
qed

lemma sqrt7_bounds: "0.881 < sqrt 7 / 3 \<and> sqrt 7 / 3 < 0.883"
proof -
  have "(2.643::real)\<^sup>2 < 7" by (simp add: power2_eq_square)
  then have lo: "2.643 < sqrt 7" by (rule real_less_rsqrt)
  have "(7::real) < 2.649\<^sup>2" by (simp add: power2_eq_square)
  then have hi: "sqrt 7 < 2.649" by (intro real_less_lsqrt) simp_all
  from lo hi show ?thesis by simp
qed
















section \<open>The claims\<close>

text \<open>
  Claim C1. For a two-dimensional image and an integer threshold \<open>t\<close>, the pixels that
  \<open>count_multiplicity\<close> hands to the labelling as foreground are exactly those whose
  intensity is at least \<open>t\<close>, and exactly those receive a region label: the comparison is
  inclusive, so a pixel of intensity \<open>t\<close> is in the mask and one of intensity \<open>t - 1\<close> is
  not.
\<close>

theorem threshold_inclusive:
  assumes "imread wd image_path = Inr img" "ndim img = 2" "well_formed img"
    and "i < length (data img)"
  shows "count_multiplicity wd image_path t = Inr (map area (regionprops (labeled_image img t)))
    \<and> data (binary_image img t) ! i = (t \<le> data img ! i)
    \<and> (data (labeled_image img t) ! i \<noteq> 0) = (t \<le> data img ! i)
    \<and> (data img ! i = t \<longrightarrow> data (binary_image img t) ! i)
    \<and> (data img ! i = t - 1 \<longrightarrow> \<not> data (binary_image img t) ! i)"
proof -
  have "count_multiplicity wd image_path t = Inr (map area (regionprops (labeled_image img t)))"
    using count_multiplicity_2d [OF assms(1,2)] by (simp add: labeled_image_def)
  moreover have m: "data (binary_image img t) ! i = (t \<le> data img ! i)"
    using assms(4) by (simp add: binary_image_simps)
  moreover have "(data (labeled_image img t) ! i \<noteq> 0) = (t \<le> data img ! i)"
    using labeled_image_nonzero_iff [OF assms(2,3,4)] by (simp add: labeled_image_def)
  ultimately show ?thesis by simp
qed

theorem threshold_inclusive_witness:
  "count_multiplicity \<lparr>glob = \<lambda>_. [], imread = \<lambda>_. Inr \<lparr>shape = [1, 2], data = [5, 4]\<rparr>\<rparr> ''a.tiff'' 5
      = Inr [1]
   \<and> data (binary_image \<lparr>shape = [1, 2], data = [5, 4]\<rparr> 5) ! 0
   \<and> \<not> data (binary_image \<lparr>shape = [1, 2], data = [5, 4]\<rparr> 5) ! 1
   \<and> data (labeled_image \<lparr>shape = [1, 2], data = [5, 4]\<rparr> 5) ! 0 \<noteq> 0
   \<and> data (labeled_image \<lparr>shape = [1, 2], data = [5, 4]\<rparr> 5) ! 1 = 0"
proof -
  let ?img = "\<lparr>shape = [1, 2], data = [5, 4 :: int]\<rparr>"
  let ?wd = "\<lparr>glob = \<lambda>_. [], imread = \<lambda>_. Inr ?img\<rparr>"
  have h: "imread ?wd ''a.tiff'' = Inr ?img" "ndim ?img = 2" "well_formed ?img"
    by (simp_all add: ndim_def well_formed_def)
  have i: "0 < length (data ?img)" "1 < length (data ?img)" by simp_all
  have v: "map area (regionprops (labeled_image ?img 5)) = [1]" by code_simp
  from threshold_inclusive [OF h i(1), of 5] threshold_inclusive [OF h i(2), of 5] v
  show ?thesis by simp
qed

text \<open>
  Claim C2. Regions are formed under 8-connectivity: two foreground pixels of a
  two-dimensional image whose rows and columns differ by at most one, so also two that
  touch only at a corner, carry the same region label; and two foreground pixels carry the
  same label exactly when a chain of foreground pixels, each an edge or corner neighbour
  of the next, joins them. In particular a 3 by 3 image whose only foreground pixels are
  those at (0,0) and (1,1) yields the single multiplicity 2.
\<close>

theorem eight_connectivity:
  assumes "imread wd image_path = Inr img" "shape img = [h, w]" "well_formed img"
  shows "(r1 < h \<and> c1 < w \<and> r2 < h \<and> c2 < w
          \<and> \<bar>int r1 - int r2\<bar> \<le> 1 \<and> \<bar>int c1 - int c2\<bar> \<le> 1
          \<and> t \<le> data img ! (r1 * w + c1) \<and> t \<le> data img ! (r2 * w + c2)
        \<longrightarrow> data (labeled_image img t) ! (r1 * w + c1) = data (labeled_image img t) ! (r2 * w + c2)
          \<and> data (labeled_image img t) ! (r1 * w + c1) \<noteq> 0)
    \<and> (i < h * w \<and> j < h * w \<and> t \<le> data img ! i \<and> t \<le> data img ! j
        \<longrightarrow> (data (labeled_image img t) ! i = data (labeled_image img t) ! j) =
            (\<lambda>x y. x < h * w \<and> y < h * w \<and> t \<le> data img ! x \<and> t \<le> data img ! y
                     \<and> adjacent 2 w x y)\<^sup>*\<^sup>* i j)
    \<and> (h = 3 \<and> w = 3 \<and> (\<forall>i<9. (t \<le> data img ! i) = (i = 0 \<or> i = 4))
        \<longrightarrow> count_multiplicity wd image_path t = Inr [2])"
proof (intro conjI impI)
  have nd: "ndim img = 2" using assms(2) by (simp add: ndim_def)
  have len: "length (data img) = h * w" using assms(2,3) by (simp add: well_formed_def)
  {
    assume a: "r1 < h \<and> c1 < w \<and> r2 < h \<and> c2 < w
          \<and> \<bar>int r1 - int r2\<bar> \<le> 1 \<and> \<bar>int c1 - int c2\<bar> \<le> 1
          \<and> t \<le> data img ! (r1 * w + c1) \<and> t \<le> data img ! (r2 * w + c2)"
    let ?i = "r1 * w + c1" and ?j = "r2 * w + c2"
    have i: "?i < length (data img)" and j: "?j < length (data img)"
      using a len by (simp_all add: index_less)
    show nz: "data (labeled_image img t) ! ?i \<noteq> 0"
      using labeled_image_nonzero_iff [OF nd assms(3) i] a by simp
    show "data (labeled_image img t) ! ?i = data (labeled_image img t) ! ?j"
    proof (cases "?i = ?j")
      case True
      then show ?thesis by simp
    next
      case False
      have "adjacent 2 (shape img ! 1) ?i ?j"
        using False a assms(2) by (simp add: adjacent_def Let_def)
      from labeled_image_adjacent [OF nd assms(3) i j this] a show ?thesis by simp
    qed
  }
  {
    assume c: "i < h * w \<and> j < h * w \<and> t \<le> data img ! i \<and> t \<le> data img ! j"
    then show "(data (labeled_image img t) ! i = data (labeled_image img t) ! j) =
        (\<lambda>x y. x < h * w \<and> y < h * w \<and> t \<le> data img ! x \<and> t \<le> data img ! y
                 \<and> adjacent 2 w x y)\<^sup>*\<^sup>* i j"
      by (intro labeled_image_components [OF assms(2,3)]) simp_all
  }
  {
    assume b: "h = 3 \<and> w = 3 \<and> (\<forall>i<9. (t \<le> data img ! i) = (i = 0 \<or> i = 4))"
    have "binary_image img t = \<lparr>shape = [3, 3],
        data = [True, False, False, False, True, False, False, False, False]\<rparr>"
      using b assms(2) len corner_grid_mask [of "data img" t] by (simp add: binary_image_def)
    then show "count_multiplicity wd image_path t = Inr [2]"
      using count_multiplicity_2d [OF assms(1) nd, of t] corner_grid_regions
      by (simp add: labeled_image_def)
  }
qed

theorem eight_connectivity_witness:
  "data (labeled_image \<lparr>shape = [3, 3], data = [1, 0, 0, 0, 1, 0, 0, 0, 0]\<rparr> 1) ! 0
     = data (labeled_image \<lparr>shape = [3, 3], data = [1, 0, 0, 0, 1, 0, 0, 0, 0]\<rparr> 1) ! 4
   \<and> data (labeled_image \<lparr>shape = [3, 3], data = [1, 0, 0, 0, 1, 0, 0, 0, 0]\<rparr> 1) ! 0 \<noteq> 0
   \<and> count_multiplicity
        \<lparr>glob = \<lambda>_. [], imread = \<lambda>_. Inr \<lparr>shape = [3, 3], data = [1, 0, 0, 0, 1, 0, 0, 0, 0]\<rparr>\<rparr>
        ''a.tiff'' 1 = Inr [2]"
proof -
  let ?img = "\<lparr>shape = [3, 3], data = [1, 0, 0, 0, 1, 0, 0, 0, 0 :: int]\<rparr>"
  let ?wd = "\<lparr>glob = \<lambda>_. [], imread = \<lambda>_. Inr ?img\<rparr>"
  have h: "imread ?wd ''a.tiff'' = Inr ?img" "shape ?img = [3, 3]" "well_formed ?img"
    by (simp_all add: well_formed_def)
  have only: "\<forall>i<9. (1 \<le> data ?img ! i) = (i = 0 \<or> i = 4)"
  proof (intro allI impI)
    fix i :: nat
    assume "i < 9"
    then have "i = 0 \<or> i = 1 \<or> i = 2 \<or> i = 3 \<or> i = 4 \<or> i = 5 \<or> i = 6 \<or> i = 7 \<or> i = 8"
      by arith
    then show "(1 \<le> data ?img ! i) = (i = 0 \<or> i = 4)" by auto
  qed
  from eight_connectivity [OF h, of 0 0 1 1 1 0 4] only show ?thesis by simp
qed

text \<open>
  Claim C3. For every two-dimensional image and every threshold, the multiplicities that
  \<open>count_multiplicity\<close> returns add up to the number of pixels whose intensity is at least
  the threshold.
\<close>

theorem multiplicities_partition_foreground:
  assumes "imread wd image_path = Inr img" "ndim img = 2" "well_formed img"
  shows "\<exists>ms. count_multiplicity wd image_path t = Inr ms
            \<and> sum_list ms = int (length (filter (\<lambda>x. t \<le> x) (data img)))"
  using count_multiplicity_2d [OF assms(1,2), of t] multiplicities_sum [OF assms(2,3), of t]
  by simp

theorem multiplicities_partition_foreground_witness:
  "\<exists>ms. count_multiplicity
          \<lparr>glob = \<lambda>_. [], imread = \<lambda>_. Inr \<lparr>shape = [3, 4], data = [1, 0, 2, 0, 0, 0, 0, 7, 1, 3, 0, 0]\<rparr>\<rparr>
          ''a.tiff'' 1 = Inr ms
        \<and> sum_list ms = 5"
proof -
  let ?img = "\<lparr>shape = [3, 4], data = [1, 0, 2, 0, 0, 0, 0, 7, 1, 3, 0, 0 :: int]\<rparr>"
  let ?wd = "\<lparr>glob = \<lambda>_. [], imread = \<lambda>_. Inr ?img\<rparr>"
  have h: "imread ?wd ''a.tiff'' = Inr ?img" "ndim ?img = 2" "well_formed ?img"
    by (simp_all add: ndim_def well_formed_def)
  from multiplicities_partition_foreground [OF h, of 1] show ?thesis by simp
qed

text \<open>
  Claim C4, as stated, fails for a single value: the divisor count minus one is zero, the
  sample standard deviation is 0/0, and the standard error that is returned is nan, not a
  number given by the formula.
\<close>

theorem single_value_sem_nan:
  "average_multiplicity_with_error [[5]] = (Num 5, NaN)
   \<and> snd (average_multiplicity_with_error [[5]]) \<noteq> Num (sem_formula [5])"
  by (simp add: average_multiplicity_with_error_def Let_def np_mean_def np_std_ddof1_def)

text \<open>
  Claim C4, amended. When the flattened sequence has at least two values, the mean is
  the arithmetic mean of all flattened values and the standard error is the sample
  standard deviation (divisor count minus one) divided by the square root of the count;
  when it has exactly one value, the mean is that value and the standard error is nan.
  The statistics are taken over the flattened union: on [[2,3],[5]] the mean is 10/3, not
  the average 15/4 of the two per-image averages, and the standard error lies between
  0.881 and 0.883.
\<close>

theorem statistics_formulas:
  "(2 \<le> length (concat xss) \<longrightarrow>
      average_multiplicity_with_error xss
        = (Num (mean_formula (concat xss)), Num (sem_formula (concat xss))))
   \<and> (length (concat xss) = 1 \<longrightarrow>
      average_multiplicity_with_error xss = (Num (mean_formula (concat xss)), NaN))
   \<and> average_multiplicity_with_error [[2, 3], [5]] = (Num (10 / 3), Num (sem_formula [2, 3, 5]))
   \<and> 0.881 < sem_formula [2, 3, 5] \<and> sem_formula [2, 3, 5] < 0.883
   \<and> fst (average_multiplicity_with_error [[2, 3], [5]]) \<noteq> Num ((5 / 2 + 5) / 2)"
proof -
  have two: "average_multiplicity_with_error xss
        = (Num (mean_formula (concat xss)), Num (sem_formula (concat xss)))"
    if "2 \<le> length (concat xss)" for xss
  proof -
    from that have "concat xss \<noteq> []" by (intro nonempty_of_length) linarith
    with that show ?thesis by (simp add: average_nonempty np_mean_formula np_sem_formula)
  qed
  have one: "average_multiplicity_with_error xss = (Num (mean_formula (concat xss)), NaN)"
    if "length (concat xss) = 1"
  proof -
    from that have "concat xss \<noteq> []" by (intro nonempty_of_length) linarith
    with that show ?thesis
      by (simp add: average_nonempty np_mean_formula np_std_ddof1_def)
  qed
  have ex: "average_multiplicity_with_error [[2, 3], [5]]
      = (Num (10 / 3), Num (sem_formula [2, 3, 5]))"
    using two [of "[[2, 3], [5]]"] by (simp add: mean_formula_def)
  have "fst (average_multiplicity_with_error [[2, 3], [5]]) \<noteq> Num ((5 / 2 + 5) / 2)"
    unfolding ex by simp
  with two one ex sqrt7_bounds show ?thesis by (simp add: example_sem)
qed

theorem statistics_formulas_witness:
  "average_multiplicity_with_error [[1, 4], [4]] = (Num 3, Num 1)
   \<and> average_multiplicity_with_error [[], [7]] = (Num 7, NaN)"
proof -
  have l: "2 \<le> length (concat [[1, 4], [4 :: int]])" "length (concat [[], [7 :: int]]) = 1"
    by simp_all
  have m: "mean_formula [1, 4, 4] = 3" "mean_formula [7] = 7" by (simp_all add: mean_formula_def)
  have "(\<Sum>x\<leftarrow>[1, 4, 4 :: int]. (real_of_int x - 3)\<^sup>2) = 6" by simp
  then have "sample_std_formula [1, 4, 4] = sqrt 3"
    unfolding sample_std_formula_def m by simp
  then have s: "sem_formula [1, 4, 4] = 1" by (simp add: sem_formula_def)
  from statistics_formulas [of "[[1, 4], [4]]"] statistics_formulas [of "[[], [7]]"] l m s
  show ?thesis by simp
qed

text \<open>
  Claim C5. For a loaded image that does not have exactly two dimensions,
  \<open>count_multiplicity\<close> fails with the \<open>ValueError\<close> of the shape check (the
  specification's ShapeError), whatever the threshold and the pixel data are: nothing of
  the thresholding or labelling enters the result. For a two-dimensional image it returns
  a list.
\<close>

theorem shape_check:
  assumes "imread wd image_path = Inr img"
  shows "(ndim img \<noteq> 2 \<longrightarrow> (\<forall>t. count_multiplicity wd image_path t = Inl (ValueError (shape img))))
       \<and> (ndim img = 2 \<longrightarrow> (\<forall>t. \<exists>ms. count_multiplicity wd image_path t = Inr ms))"
  using assms by (simp add: count_multiplicity_def)

theorem shape_check_witness:
  "count_multiplicity
     \<lparr>glob = \<lambda>_. [], imread = \<lambda>_. Inr \<lparr>shape = [5, 100, 100], data = replicate 50000 0\<rparr>\<rparr>
     ''stack.tiff'' 1 = Inl (ValueError [5, 100, 100])
   \<and> (\<exists>ms. count_multiplicity
        \<lparr>glob = \<lambda>_. [], imread = \<lambda>_. Inr \<lparr>shape = [1, 2], data = [3, 0]\<rparr>\<rparr> ''a.tiff'' 1 = Inr ms)"
proof -
  let ?stack = "\<lparr>shape = [5, 100, 100], data = replicate 50000 (0::int)\<rparr>"
  let ?flat = "\<lparr>shape = [1, 2], data = [3, 0 :: int]\<rparr>"
  let ?ws = "\<lparr>glob = \<lambda>_. [], imread = \<lambda>_. Inr ?stack\<rparr>"
  let ?wf = "\<lparr>glob = \<lambda>_. [], imread = \<lambda>_. Inr ?flat\<rparr>"
  have s: "imread ?ws ''stack.tiff'' = Inr ?stack" "ndim ?stack \<noteq> 2" by (simp_all add: ndim_def)
  have f: "imread ?wf ''a.tiff'' = Inr ?flat" "ndim ?flat = 2" by (simp_all add: ndim_def)
  from shape_check [OF s(1)] s(2) shape_check [OF f(1)] f(2) show ?thesis by simp
qed

text \<open>
  Claim C6, as stated, fails: an all-zero image with threshold 0 has every pixel in the
  foreground, and the result is one region of four pixels, not the empty list.
\<close>

theorem all_zero_threshold_zero:
  "count_multiplicity
     \<lparr>glob = \<lambda>_. [], imread = \<lambda>_. Inr \<lparr>shape = [2, 2], data = [0, 0, 0, 0]\<rparr>\<rparr> ''a.tiff'' 0
     = Inr [4]
   \<and> count_multiplicity
     \<lparr>glob = \<lambda>_. [], imread = \<lambda>_. Inr \<lparr>shape = [2, 2], data = [0, 0, 0, 0]\<rparr>\<rparr> ''a.tiff'' 0
     \<noteq> Inr []"
proof -
  have "count_multiplicity
     \<lparr>glob = \<lambda>_. [], imread = \<lambda>_. Inr \<lparr>shape = [2, 2], data = [0, 0, 0, 0]\<rparr>\<rparr> ''a.tiff'' 0
     = Inr [4]"
    by code_simp
  then show ?thesis by simp
qed

text \<open>
  Claim C6, amended. Whenever no pixel of a two-dimensional image meets the threshold,
  \<open>count_multiplicity\<close> returns the empty list and no error; in particular for an
  all-zero image and every threshold greater than 0.
\<close>

theorem no_foreground_empty:
  assumes "imread wd image_path = Inr img" "ndim img = 2"
  shows "((\<forall>x \<in> set (data img). x < t) \<longrightarrow> count_multiplicity wd image_path t = Inr [])
       \<and> ((\<forall>x \<in> set (data img). x = 0) \<and> 0 < t \<longrightarrow> count_multiplicity wd image_path t = Inr [])"
proof -
  have main: "count_multiplicity wd image_path t = Inr []" if "\<forall>x \<in> set (data img). x < t"
    using count_multiplicity_2d [OF assms, of t] regionprops_empty [OF no_foreground_labels [OF that]]
    by simp
  moreover have "\<forall>x \<in> set (data img). x < t" if "(\<forall>x \<in> set (data img). x = 0) \<and> 0 < t"
    using that by auto
  ultimately show ?thesis by blast
qed

theorem no_foreground_empty_witness:
  "count_multiplicity
     \<lparr>glob = \<lambda>_. [], imread = \<lambda>_. Inr \<lparr>shape = [2, 2], data = [0, 0, 0, 0]\<rparr>\<rparr> ''a.tiff'' 1 = Inr []
   \<and> count_multiplicity
     \<lparr>glob = \<lambda>_. [], imread = \<lambda>_. Inr \<lparr>shape = [2, 2], data = [3, 1, 4, 1]\<rparr>\<rparr> ''b.tiff'' 5 = Inr []"
proof -
  let ?a = "\<lparr>shape = [2, 2], data = [0, 0, 0, 0 :: int]\<rparr>"
  let ?b = "\<lparr>shape = [2, 2], data = [3, 1, 4, 1 :: int]\<rparr>"
  let ?wa = "\<lparr>glob = \<lambda>_. [], imread = \<lambda>_. Inr ?a\<rparr>"
  let ?wb = "\<lparr>glob = \<lambda>_. [], imread = \<lambda>_. Inr ?b\<rparr>"
  have a: "imread ?wa ''a.tiff'' = Inr ?a" "ndim ?a = 2" by (simp_all add: ndim_def)
  have b: "imread ?wb ''b.tiff'' = Inr ?b" "ndim ?b = 2" by (simp_all add: ndim_def)
  from no_foreground_empty [OF a, of 1] no_foreground_empty [OF b, of 5] show ?thesis by simp
qed

text \<open>
  Claim C7. Whenever the flattened sequence of multiplicities is empty, as for the inputs
  [[]] and [], \<open>average_multiplicity_with_error\<close> returns mean 0 and standard error 0;
  no division takes place.
\<close>

theorem empty_statistics:
  "(concat xss = [] \<longrightarrow> average_multiplicity_with_error xss = (Num 0, Num 0))
   \<and> average_multiplicity_with_error [[]] = (Num 0, Num 0)
   \<and> average_multiplicity_with_error [] = (Num 0, Num 0)"
  by (simp add: average_empty)

theorem empty_statistics_witness:
  "average_multiplicity_with_error [[], [], []] = (Num 0, Num 0)"
proof -
  have h: "concat [[], [], [] :: int list] = []" by simp
  from empty_statistics [of "[[], [], []]"] h show ?thesis by blast
qed

text \<open>
  Claim C8. When no file matches \<open>*.tiff\<close> in the folder,
  \<open>process_images_in_folder\<close> prints the notice, returns the empty list and raises
  nothing.
\<close>

theorem empty_folder:
  assumes "glob wd (os_path_join folder_path ''*.tiff'') = []"
  shows "process_images_in_folder wd folder_path t
         = (Inr [], [''No TIFF files found in folder: '' @ folder_path])"
  using assms by (simp add: process_images_in_folder_def)

theorem empty_folder_witness:
  "process_images_in_folder \<lparr>glob = \<lambda>_. [], imread = \<lambda>_. Inl ReadError\<rparr> ''data'' 1
     = (Inr [], [''No TIFF files found in folder: data''])"
proof -
  let ?wd = "\<lparr>glob = \<lambda>_. [], imread = \<lambda>_. Inl ReadError\<rparr>"
  have h: "glob ?wd (os_path_join ''data'' ''*.tiff'') = []" by simp
  from empty_folder [OF h, of 1] show ?thesis by simp
qed

text \<open>
  Claim C9. Every multiplicity that \<open>count_multiplicity\<close> returns for a
  two-dimensional image is strictly positive, and the number of regions is at most the
  number of foreground pixels.
\<close>

theorem multiplicities_positive:
  assumes "imread wd image_path = Inr img" "ndim img = 2" "well_formed img"
  shows "\<exists>ms. count_multiplicity wd image_path t = Inr ms
            \<and> (\<forall>m \<in> set ms. 0 < m)
            \<and> length ms \<le> length (filter (\<lambda>x. t \<le> x) (data img))"
proof -
  let ?ms = "map area (regionprops (labeled_image img t))"
  have pos: "\<forall>m \<in> set ?ms. 0 < m" by (rule multiplicities_pos)
  then have "int (length ?ms) \<le> sum_list ?ms" by (rule sum_list_pos_length)
  with multiplicities_sum [OF assms(2,3), of t]
  have "length ?ms \<le> length (filter (\<lambda>x. t \<le> x) (data img))" by simp
  with pos count_multiplicity_2d [OF assms(1,2), of t] show ?thesis by blast
qed

theorem multiplicities_positive_witness:
  "\<exists>ms. count_multiplicity
          \<lparr>glob = \<lambda>_. [], imread = \<lambda>_. Inr \<lparr>shape = [2, 3], data = [9, 0, 2, 0, 0, 0]\<rparr>\<rparr>
          ''a.tiff'' 2 = Inr ms
        \<and> list_all (\<lambda>m. 0 < m) ms \<and> length ms \<le> 2"
proof -
  let ?img = "\<lparr>shape = [2, 3], data = [9, 0, 2, 0, 0, 0 :: int]\<rparr>"
  let ?wd = "\<lparr>glob = \<lambda>_. [], imread = \<lambda>_. Inr ?img\<rparr>"
  have h: "imread ?wd ''a.tiff'' = Inr ?img" "ndim ?img = 2" "well_formed ?img"
    by (simp_all add: ndim_def well_formed_def)
  from multiplicities_positive [OF h, of 2] show ?thesis
    by (simp add: list_all_iff numeral_2_eq_2)
qed




end
